theory Spec2Isabelle
  imports Complex_Main "HOL-Library.AList"
begin

section \<open>Strings\<close>

text \<open>
  Python strings are sequences of code points. They are modelled as \<open>string\<close>, a list of
  8-bit characters read as the code points 0 to 255 (Latin-1), so \<open>length\<close> is Python's
  \<open>len\<close>. The character classes below are those of Python's \<open>str\<close> methods and of the
  \<open>re\<close> module on that range.
\<close>

definition code :: "char \<Rightarrow> nat" where
  "code c = of_char c"

definition is_token_char :: "char \<Rightarrow> bool" where
  \<comment> \<open>the class \<open>[A-Za-z0-9_]\<close> of \<open>_TOKEN\<close>\<close>
  "is_token_char c =
     ((65 \<le> code c \<and> code c \<le> 90) \<or> (97 \<le> code c \<and> code c \<le> 122)
      \<or> (48 \<le> code c \<and> code c \<le> 57) \<or> code c = 95)"

definition is_space :: "char \<Rightarrow> bool" where
  \<comment> \<open>\<open>str.isspace\<close>, also the class \<open>\s\<close>: tab to carriage return, 0x1C to 0x1F, space, 0x85, 0xA0\<close>
  "is_space c =
     ((9 \<le> code c \<and> code c \<le> 13) \<or> (28 \<le> code c \<and> code c \<le> 32)
      \<or> code c = 133 \<or> code c = 160)"

definition is_linebreak :: "char \<Rightarrow> bool" where
  \<comment> \<open>the line boundaries of \<open>str.splitlines\<close>\<close>
  "is_linebreak c =
     ((10 \<le> code c \<and> code c \<le> 13) \<or> (28 \<le> code c \<and> code c \<le> 30) \<or> code c = 133)"

definition is_digit :: "char \<Rightarrow> bool" where
  \<comment> \<open>the class \<open>\d\<close>\<close>
  "is_digit c = (48 \<le> code c \<and> code c \<le> 57)"

definition is_word_char :: "char \<Rightarrow> bool" where
  \<comment> \<open>the class \<open>\w\<close>: alphanumeric code points and the underscore\<close>
  "is_word_char c =
     (is_token_char c \<or> code c = 170 \<or> code c = 178 \<or> code c = 179 \<or> code c = 181
      \<or> code c = 185 \<or> code c = 186 \<or> (188 \<le> code c \<and> code c \<le> 190)
      \<or> (192 \<le> code c \<and> code c \<le> 214) \<or> (216 \<le> code c \<and> code c \<le> 246)
      \<or> 248 \<le> code c)"

definition lower_char :: "char \<Rightarrow> char" where
  "lower_char c =
     (if (65 \<le> code c \<and> code c \<le> 90) \<or> (192 \<le> code c \<and> code c \<le> 214)
         \<or> (216 \<le> code c \<and> code c \<le> 222)
      then char_of (code c + 32) else c)"

definition lower :: "string \<Rightarrow> string" where
  \<comment> \<open>\<open>str.lower\<close>\<close>
  "lower s = map lower_char s"

definition strip :: "string \<Rightarrow> string" where
  \<comment> \<open>\<open>str.strip\<close>\<close>
  "strip s = rev (dropWhile is_space (rev (dropWhile is_space s)))"

definition lstrip :: "string \<Rightarrow> string" where
  "lstrip s = dropWhile is_space s"

definition rstrip :: "string \<Rightarrow> string" where
  "rstrip s = rev (dropWhile is_space (rev s))"

definition startswith :: "string \<Rightarrow> string \<Rightarrow> bool" where
  "startswith s p = (take (length p) s = p)"

definition endswith :: "string \<Rightarrow> string \<Rightarrow> bool" where
  "endswith s p = (length p \<le> length s \<and> drop (length s - length p) s = p)"

fun join :: "string \<Rightarrow> string list \<Rightarrow> string" where
  \<comment> \<open>\<open>sep.join(xs)\<close>\<close>
  "join sep [] = []"
| "join sep [x] = x"
| "join sep (x # y # ys) = x @ sep @ join sep (y # ys)"

function count :: "string \<Rightarrow> string \<Rightarrow> nat" where
  \<comment> \<open>\<open>s.count(sub)\<close>: the occurrences of \<open>sub\<close> found from left to right without overlap\<close>
  "count s sub =
     (if sub = [] then length s + 1
      else if length s < length sub then 0
      else if take (length sub) s = sub then 1 + count (drop (length sub) s) sub
      else count (tl s) sub)"
  by pat_completeness auto
termination
proof (relation "measure (\<lambda>(s, sub). length s)")
  fix s sub :: string
  assume "sub \<noteq> []" and "\<not> length s < length sub"
  then show "((drop (length sub) s, sub), (s, sub)) \<in> measure (\<lambda>(s, sub). length s)"
    and "((tl s, sub), (s, sub)) \<in> measure (\<lambda>(s, sub). length s)"
    by (cases sub; cases s; auto)+
qed simp

declare count.simps [simp del]

function split_ws :: "string \<Rightarrow> string list" where
  \<comment> \<open>\<open>s.split()\<close>: the maximal runs of characters that are not whitespace\<close>
  "split_ws [] = []"
| "split_ws (c # cs) =
     (if is_space c then split_ws cs
      else (c # takeWhile (\<lambda>x. \<not> is_space x) cs) # split_ws (dropWhile (\<lambda>x. \<not> is_space x) cs))"
  by pat_completeness auto
termination
  by (relation "measure length") (auto intro: le_imp_less_Suc length_dropWhile_le)

function splitlines :: "string \<Rightarrow> string list" where
  \<comment> \<open>\<open>s.splitlines()\<close>; a carriage return and the line feed after it are one boundary\<close>
  "splitlines [] = []"
| "splitlines (c # cs) =
     takeWhile (\<lambda>x. \<not> is_linebreak x) (c # cs) #
       (case dropWhile (\<lambda>x. \<not> is_linebreak x) (c # cs) of
          [] \<Rightarrow> []
        | b # r \<Rightarrow>
            splitlines (if b = CHR 0x0D \<and> r \<noteq> [] \<and> hd r = CHR 0x0A then tl r else r))"
  by pat_completeness auto
termination
proof (relation "measure length")
  fix c :: char and cs b r
  assume "dropWhile (\<lambda>x. \<not> is_linebreak x) (c # cs) = b # r"
  moreover have "length (dropWhile (\<lambda>x. \<not> is_linebreak x) (c # cs)) \<le> length (c # cs)"
    by (rule length_dropWhile_le)
  ultimately have "length r < length (c # cs)" by simp
  moreover have "length (tl r) \<le> length r" by simp
  ultimately show "(if b = CHR 0x0D \<and> r \<noteq> [] \<and> hd r = CHR 0x0A then tl r else r, c # cs)
      \<in> measure length"
    by (simp del: length_tl)
qed simp

definition slice_to :: "int \<Rightarrow> 'a list \<Rightarrow> 'a list" where
  \<comment> \<open>\<open>xs[:k]\<close>: a negative \<open>k\<close> counts from the end\<close>
  "slice_to k xs = (if 0 \<le> k then take (nat k) xs else take (nat (int (length xs) + k)) xs)"

section \<open>Regular expressions\<close>

function findall_TOKEN :: "string \<Rightarrow> string list" where
  \<comment> \<open>\<open>_TOKEN.findall(s)\<close> for \<open>[A-Za-z0-9_]+\<close>: the maximal runs of token characters\<close>
  "findall_TOKEN [] = []"
| "findall_TOKEN (c # cs) =
     (if is_token_char c
      then (c # takeWhile is_token_char cs) # findall_TOKEN (dropWhile is_token_char cs)
      else findall_TOKEN cs)"
  by pat_completeness auto
termination
  by (relation "measure length") (auto intro: le_imp_less_Suc length_dropWhile_le)


definition newline :: char where
  "newline = CHR 0x0A"

fun header_text :: "nat \<Rightarrow> string \<Rightarrow> (string \<times> string) option" where
  \<comment> \<open>the part \<open>\s+(.+)$\<close> of \<open>_MD_HEADER\<close> on the text after the hashes, \<open>\s+\<close> taking
      the first \<open>k\<close> characters of the whitespace run and giving one back at a time:
      the group and the text after the match\<close>
  "header_text 0 s = None"
| "header_text (Suc k) s =
     (let t = drop (Suc k) s
      in if t \<noteq> [] \<and> hd t \<noteq> newline
         then Some (takeWhile (\<lambda>c. c \<noteq> newline) t, dropWhile (\<lambda>c. c \<noteq> newline) t)
         else header_text k s)"

definition match_MD_HEADER :: "string \<Rightarrow> (string \<times> string) option" where
  \<comment> \<open>\<open>^#{1,6}\s+(.+)$\<close> at the start of a line\<close>
  "match_MD_HEADER s =
     (let hashes = length (takeWhile (\<lambda>c. c = CHR ''#'') s);
          t = drop hashes s
      in if 1 \<le> hashes \<and> hashes \<le> 6 then header_text (length (takeWhile is_space t)) t
         else None)"

lemma header_text_shorter:
  "header_text k s = Some (g, r) \<Longrightarrow> length r \<le> length s"
proof (induction k)
  case 0
  then show ?case by simp
next
  case (Suc k)
  have "length (dropWhile (\<lambda>c. c \<noteq> newline) (drop (Suc k) s)) \<le> length s"
    using length_dropWhile_le [of "\<lambda>c. c \<noteq> newline" "drop (Suc k) s"] by simp
  with Suc show ?case by (auto simp: Let_def split: if_splits)
qed

lemma match_MD_HEADER_shorter:
  assumes "match_MD_HEADER s = Some (g, r)"
  shows "length r < length s"
proof -
  let ?h = "length (takeWhile (\<lambda>c. c = CHR ''#'') s)"
  from assms have h: "1 \<le> ?h" and t: "header_text (length (takeWhile is_space (drop ?h s))) (drop ?h s) = Some (g, r)"
    by (auto simp: match_MD_HEADER_def Let_def split: if_splits)
  have "?h \<le> length s" by (rule length_takeWhile_le)
  moreover from t have "length r \<le> length (drop ?h s)" by (rule header_text_shorter)
  ultimately show ?thesis using h by simp
qed

function findall_MD_HEADER_from :: "bool \<Rightarrow> string \<Rightarrow> string list" where
  \<comment> \<open>the scan of \<open>findall\<close>; the flag says that the position is the start of a line\<close>
  "findall_MD_HEADER_from bol [] = []"
| "findall_MD_HEADER_from bol (c # cs) =
     (case (if bol then match_MD_HEADER (c # cs) else None) of
        Some (g, rest) \<Rightarrow> g # findall_MD_HEADER_from False rest
      | None \<Rightarrow> findall_MD_HEADER_from (c = newline) cs)"
  by pat_completeness auto
termination
  by (relation "measure (\<lambda>(bol, s). length s)")
     (auto split: if_splits dest: match_MD_HEADER_shorter)

definition findall_MD_HEADER :: "string \<Rightarrow> string list" where
  \<comment> \<open>\<open>_MD_HEADER.findall(s)\<close>\<close>
  "findall_MD_HEADER s = findall_MD_HEADER_from True s"

fun until_fence :: "string \<Rightarrow> (string \<times> string) option" where
  \<comment> \<open>a lazy \<open>[\s\S]*?\<close> and the closing fence: the text before the first fence and the text after it\<close>
  "until_fence [] = None"
| "until_fence (c # cs) =
     (if startswith (c # cs) ''```'' then Some ([], drop 3 (c # cs))
      else (case until_fence cs of None \<Rightarrow> None | Some (g, r) \<Rightarrow> Some (c # g, r)))"

definition match_MD_CODE_BLOCK :: "string \<Rightarrow> (string \<times> string) option" where
  \<comment> \<open>\<open>```[\w]*\n([\s\S]*?)```\<close>\<close>
  "match_MD_CODE_BLOCK s =
     (if startswith s ''```''
      then (case dropWhile is_word_char (drop 3 s) of
              [] \<Rightarrow> None
            | c # cs \<Rightarrow> if c = newline then until_fence cs else None)
      else None)"

lemma until_fence_shorter:
  "until_fence s = Some (g, r) \<Longrightarrow> length r < length s"
  by (induction s arbitrary: g) (auto split: if_splits option.splits)

lemma match_MD_CODE_BLOCK_shorter:
  assumes "match_MD_CODE_BLOCK s = Some (g, r)"
  shows "length r < length s"
proof -
  from assms obtain c cs where d: "dropWhile is_word_char (drop 3 s) = c # cs"
    and u: "until_fence cs = Some (g, r)"
    by (auto simp: match_MD_CODE_BLOCK_def split: if_splits list.splits)
  have "length (dropWhile is_word_char (drop 3 s)) \<le> length (drop 3 s)"
    by (rule length_dropWhile_le)
  with d have "length cs < length s" by simp
  with until_fence_shorter [OF u] show ?thesis by simp
qed

function findall_MD_CODE_BLOCK :: "string \<Rightarrow> string list" where
  \<comment> \<open>\<open>_MD_CODE_BLOCK.findall(s)\<close>\<close>
  "findall_MD_CODE_BLOCK [] = []"
| "findall_MD_CODE_BLOCK (c # cs) =
     (case match_MD_CODE_BLOCK (c # cs) of
        Some (g, rest) \<Rightarrow> g # findall_MD_CODE_BLOCK rest
      | None \<Rightarrow> findall_MD_CODE_BLOCK cs)"
  by pat_completeness auto
termination
  by (relation "measure length") (auto dest: match_MD_CODE_BLOCK_shorter)

definition match_MD_LINK_TEXT :: "string \<Rightarrow> (string \<times> string) option" where
  \<comment> \<open>\<open>\[([^\]]+)\]\([^)]+\)\<close>\<close>
  "match_MD_LINK_TEXT s =
     (case s of
        [] \<Rightarrow> None
      | c # cs \<Rightarrow>
          if c \<noteq> CHR ''['' \<or> takeWhile (\<lambda>x. x \<noteq> CHR '']'') cs = [] then None
          else (case dropWhile (\<lambda>x. x \<noteq> CHR '']'') cs of
                  b # p # u \<Rightarrow>
                    if p \<noteq> CHR ''('' \<or> takeWhile (\<lambda>x. x \<noteq> CHR '')'') u = []
                       \<or> dropWhile (\<lambda>x. x \<noteq> CHR '')'') u = []
                    then None
                    else Some (takeWhile (\<lambda>x. x \<noteq> CHR '']'') cs,
                               tl (dropWhile (\<lambda>x. x \<noteq> CHR '')'') u))
                | _ \<Rightarrow> None))"

lemma match_MD_LINK_TEXT_shorter:
  assumes "match_MD_LINK_TEXT s = Some (g, r)"
  shows "length r < length s"
proof -
  from assms obtain c cs b p u where s: "s = c # cs"
    and d: "dropWhile (\<lambda>x. x \<noteq> CHR '']'') cs = b # p # u"
    and r: "r = tl (dropWhile (\<lambda>x. x \<noteq> CHR '')'') u)"
    by (auto simp: match_MD_LINK_TEXT_def split: list.splits if_splits)
  have "length (dropWhile (\<lambda>x. x \<noteq> CHR '']'') cs) \<le> length cs"
    by (rule length_dropWhile_le)
  with d have "length u < length cs" by simp
  moreover have "length (dropWhile (\<lambda>x. x \<noteq> CHR '')'') u) \<le> length u"
    by (rule length_dropWhile_le)
  ultimately show ?thesis using s r by simp
qed

function findall_MD_LINK_TEXT :: "string \<Rightarrow> string list" where
  \<comment> \<open>\<open>_MD_LINK_TEXT.findall(s)\<close>\<close>
  "findall_MD_LINK_TEXT [] = []"
| "findall_MD_LINK_TEXT (c # cs) =
     (case match_MD_LINK_TEXT (c # cs) of
        Some (g, rest) \<Rightarrow> g # findall_MD_LINK_TEXT rest
      | None \<Rightarrow> findall_MD_LINK_TEXT cs)"
  by pat_completeness auto
termination
  by (relation "measure length") (auto dest: match_MD_LINK_TEXT_shorter)

function sub_CODE_FENCE :: "string \<Rightarrow> string" where
  \<comment> \<open>\<open>_CODE_FENCE.sub('', s)\<close> for \<open>```.*?```\<close>, the dot matching every character\<close>
  "sub_CODE_FENCE [] = []"
| "sub_CODE_FENCE (c # cs) =
     (case (if startswith (c # cs) ''```'' then until_fence (drop 3 (c # cs)) else None) of
        Some (g, rest) \<Rightarrow> sub_CODE_FENCE rest
      | None \<Rightarrow> c # sub_CODE_FENCE cs)"
  by pat_completeness auto
termination
proof (relation "measure length")
  fix c cs x g rest
  assume "(if startswith (c # cs) ''```'' then until_fence (drop 3 (c # cs)) else None) = Some x"
    and "(g, rest) = x"
  then have "until_fence (drop 3 (c # cs)) = Some (g, rest)"
    by (auto split: if_splits)
  from until_fence_shorter [OF this] show "(rest, c # cs) \<in> measure length"
    by simp
qed simp_all

definition match_numbered :: "string \<Rightarrow> bool" where
  \<comment> \<open>\<open>re.match(r'^\d+\.', s)\<close>\<close>
  "match_numbered s = (takeWhile is_digit s \<noteq> [] \<and> startswith (dropWhile is_digit s) ''.'')"

section \<open>Documents and the index\<close>

record Page =
  url :: string
  title :: string
  content :: string

record Doc =
  uri :: string
  display_title :: string
  content :: string
  index_title :: string

text \<open>
  \<open>doc_frequency\<close> holds counters that start at 0 and are only incremented, and
  \<open>doc_indices\<close> holds positions in \<open>docs\<close>: both are natural numbers.
\<close>

record IndexSearch =
  docs :: "Doc list"
  doc_frequency :: "string \<rightharpoonup> nat"
  doc_indices :: "string \<rightharpoonup> nat list"

definition IndexSearch_init :: IndexSearch where
  \<comment> \<open>\<open>IndexSearch.__init__\<close>\<close>
  "IndexSearch_init = \<lparr>docs = [], doc_frequency = Map.empty, doc_indices = Map.empty\<rparr>"

definition get_or :: "('k \<rightharpoonup> 'v) \<Rightarrow> 'k \<Rightarrow> 'v \<Rightarrow> 'v" where
  \<comment> \<open>\<open>d.get(k, default)\<close>\<close>
  "get_or d k dflt = (case d k of None \<Rightarrow> dflt | Some v \<Rightarrow> v)"

definition haystack :: "Doc \<Rightarrow> string" where
  "haystack doc =
     (let content = lower (Doc.content doc);
          title_text = lower (index_title doc);
          headers = join '' '' (findall_MD_HEADER (Doc.content doc));
          code_blocks = join '' '' (findall_MD_CODE_BLOCK (Doc.content doc));
          link_text = join '' '' (findall_MD_LINK_TEXT (Doc.content doc))
      in join '' '' [title_text, lower headers, lower link_text, lower code_blocks, content])"

fun add_tokens :: "nat \<Rightarrow> string list \<Rightarrow> IndexSearch \<Rightarrow> string set \<Rightarrow> IndexSearch" where
  \<comment> \<open>the loop of \<open>add\<close> over the tokens of the haystack, with the set \<open>seen\<close>\<close>
  "add_tokens idx [] ix seen = ix"
| "add_tokens idx (tok # toks) ix seen =
     (let ix1 = ix\<lparr>doc_indices := (doc_indices ix)(tok \<mapsto> get_or (doc_indices ix) tok [] @ [idx])\<rparr>
      in if tok \<notin> seen
         then add_tokens idx toks
                (ix1\<lparr>doc_frequency := (doc_frequency ix1)(tok \<mapsto> get_or (doc_frequency ix1) tok 0 + 1)\<rparr>)
                (insert tok seen)
         else add_tokens idx toks ix1 seen)"

definition add :: "IndexSearch \<Rightarrow> Doc \<Rightarrow> IndexSearch" where
  \<comment> \<open>\<open>IndexSearch.add\<close>: the index after the call\<close>
  "add ix doc =
     (let idx = length (docs ix)
      in add_tokens idx (findall_TOKEN (haystack doc)) (ix\<lparr>docs := docs ix @ [doc]\<rparr>) {})"

definition add_all :: "IndexSearch \<Rightarrow> Doc list \<Rightarrow> IndexSearch" where
  \<comment> \<open>a sequence of \<open>add\<close> calls\<close>
  "add_all ix ds = foldl add ix ds"

section \<open>The effect of add\<close>

lemma docs_add_tokens: "docs (add_tokens idx toks ix seen) = docs ix"
  by (induction toks arbitrary: ix seen) (simp_all add: Let_def)

lemma doc_indices_add_tokens:
  "doc_indices (add_tokens idx toks ix seen) t =
     (if t \<in> set toks
      then Some (get_or (doc_indices ix) t [] @ replicate (count_list toks t) idx)
      else doc_indices ix t)"
proof (induction toks arbitrary: ix seen)
  case Nil
  show ?case by simp
next
  case (Cons tok toks)
  show ?case
    by (simp add: Let_def Cons.IH get_or_def replicate_app_Cons_same)
qed

lemma doc_frequency_add_tokens:
  "doc_frequency (add_tokens idx toks ix seen) t =
     (if t \<in> set toks \<and> t \<notin> seen
      then Some (get_or (doc_frequency ix) t 0 + 1)
      else doc_frequency ix t)"
proof (induction toks arbitrary: ix seen)
  case Nil
  show ?case by simp
next
  case (Cons tok toks)
  show ?case
    by (simp add: Let_def Cons.IH get_or_def)
qed

lemma doc_frequency_add:
  "doc_frequency (add ix d) t =
     (if t \<in> set (findall_TOKEN (haystack d))
      then Some (get_or (doc_frequency ix) t 0 + 1)
      else doc_frequency ix t)"
  by (simp add: add_def Let_def doc_frequency_add_tokens)

lemma doc_indices_add:
  "doc_indices (add ix d) t =
     (if t \<in> set (findall_TOKEN (haystack d))
      then Some (get_or (doc_indices ix) t [] @
                 replicate (count_list (findall_TOKEN (haystack d)) t) (length (docs ix)))
      else doc_indices ix t)"
  by (simp add: add_def Let_def doc_indices_add_tokens)

lemma docs_add: "docs (add ix d) = docs ix @ [d]"
  by (simp add: add_def Let_def docs_add_tokens)

text \<open>
  C5: \<open>add\<close> increases the document frequency of every token of the document's haystack by
  exactly 1, however often the token recurs there (a token without an entry counts as 0),
  and leaves the document frequency of every other token as it was.
\<close>

theorem add_doc_frequency:
  "doc_frequency (add ix d) t =
     (if t \<in> set (findall_TOKEN (haystack d))
      then Some (get_or (doc_frequency ix) t 0 + 1)
      else doc_frequency ix t)"
  by (rule doc_frequency_add)

theorem add_doc_frequency_witness:
  "doc_frequency
     (add IndexSearch_init
       \<lparr>uri = ''u'', display_title = ''T'', content = ''b c'', index_title = ''a b a''\<rparr>) ''a''
     = Some 1
   \<and> doc_frequency
     (add IndexSearch_init
       \<lparr>uri = ''u'', display_title = ''T'', content = ''b c'', index_title = ''a b a''\<rparr>) ''z''
     = None"
proof -
  let ?d = "\<lparr>uri = ''u'', display_title = ''T'', content = ''b c'', index_title = ''a b a''\<rparr>"
  have "''a'' \<in> set (findall_TOKEN (haystack ?d))"
    and "''z'' \<notin> set (findall_TOKEN (haystack ?d))"
    by code_simp+
  moreover have "get_or (doc_frequency IndexSearch_init) ''a'' 0 = 0"
    and "doc_frequency IndexSearch_init ''z'' = None"
    by (simp_all add: get_or_def IndexSearch_init_def)
  ultimately show ?thesis
    using add_doc_frequency [of IndexSearch_init ?d "''a''"]
      add_doc_frequency [of IndexSearch_init ?d "''z''"]
    by simp
qed

text \<open>
  C1, as amended: \<open>add\<close> appends the document's ordinal to the postings list of a token
  of the haystack once for every occurrence of the token among the haystack's tokens, so at
  least once, and more than once when the token recurs; the postings of every other token are
  left as they were.
\<close>

theorem add_doc_indices:
  "doc_indices (add ix d) t =
     (if t \<in> set (findall_TOKEN (haystack d))
      then Some (get_or (doc_indices ix) t [] @
                 replicate (count_list (findall_TOKEN (haystack d)) t) (length (docs ix)))
      else doc_indices ix t)"
  by (rule doc_indices_add)

theorem add_doc_indices_witness:
  "doc_indices
     (add IndexSearch_init
       \<lparr>uri = ''u'', display_title = ''T'', content = ''b'', index_title = ''b c b''\<rparr>) ''b''
     = Some [0, 0, 0]
   \<and> doc_indices
     (add IndexSearch_init
       \<lparr>uri = ''u'', display_title = ''T'', content = ''b'', index_title = ''b c b''\<rparr>) ''z''
     = None"
proof -
  let ?d = "\<lparr>uri = ''u'', display_title = ''T'', content = ''b'', index_title = ''b c b''\<rparr>"
  have "''b'' \<in> set (findall_TOKEN (haystack ?d))"
    and "''z'' \<notin> set (findall_TOKEN (haystack ?d))"
    and "count_list (findall_TOKEN (haystack ?d)) ''b'' = Suc (Suc (Suc 0))"
    by code_simp+
  moreover have "get_or (doc_indices IndexSearch_init) ''b'' [] = []"
    and "doc_indices IndexSearch_init ''z'' = None"
    and "length (docs IndexSearch_init) = 0"
    by (simp_all add: get_or_def IndexSearch_init_def)
  ultimately show ?thesis
    using add_doc_indices [of IndexSearch_init ?d "''b''"]
      add_doc_indices [of IndexSearch_init ?d "''z''"]
    by simp
qed

text \<open>
  C1 as stated fails: the token \<open>a\<close> occurs twice in the haystack of a document with the
  index title \<open>a a\<close>, and one call of \<open>add\<close> on the fresh index appends the ordinal 0 to
  its postings list twice, not once.
\<close>

theorem add_doc_indices_counterexample:
  "''a'' \<in> set (findall_TOKEN (haystack
       \<lparr>uri = ''u'', display_title = ''A'', content = '''', index_title = ''a a''\<rparr>))
   \<and> doc_indices
       (add IndexSearch_init
         \<lparr>uri = ''u'', display_title = ''A'', content = '''', index_title = ''a a''\<rparr>) ''a''
     = Some [0, 0]
   \<and> doc_indices
       (add IndexSearch_init
         \<lparr>uri = ''u'', display_title = ''A'', content = '''', index_title = ''a a''\<rparr>) ''a''
     \<noteq> Some (get_or (doc_indices IndexSearch_init) ''a'' [] @ [length (docs IndexSearch_init)])"
  by code_simp

section \<open>The invariant of the index\<close>

definition index_inv :: "IndexSearch \<Rightarrow> bool" where
  "index_inv ix =
     (\<forall>t. (case doc_indices ix t of
              None \<Rightarrow> doc_frequency ix t = None
            | Some ps \<Rightarrow>
                doc_frequency ix t = Some (card (set ps)) \<and> sorted ps \<and>
                (\<forall>i. i \<in> set ps \<longleftrightarrow>
                   i < length (docs ix) \<and> t \<in> set (findall_TOKEN (haystack (docs ix ! i)))))
          \<and> (doc_indices ix t = None \<longrightarrow>
                (\<forall>i < length (docs ix). t \<notin> set (findall_TOKEN (haystack (docs ix ! i))))))"

lemma index_inv_init: "index_inv IndexSearch_init"
  by (simp add: index_inv_def IndexSearch_init_def)

lemma index_inv_add:
  assumes inv: "index_inv ix"
  shows "index_inv (add ix d)"
  unfolding index_inv_def
proof (intro allI)
  fix t
  let ?toks = "findall_TOKEN (haystack d)"
  let ?n = "length (docs ix)"
  let ?hit = "\<lambda>ds i. t \<in> set (findall_TOKEN (haystack (ds ! i)))"
  from inv [unfolded index_inv_def]
  have old: "(case doc_indices ix t of
           None \<Rightarrow> doc_frequency ix t = None
         | Some ps \<Rightarrow>
             doc_frequency ix t = Some (card (set ps)) \<and> sorted ps \<and>
             (\<forall>i. i \<in> set ps \<longleftrightarrow> i < length (docs ix) \<and> ?hit (docs ix) i))
        \<and> (doc_indices ix t = None \<longrightarrow> (\<forall>i < length (docs ix). \<not> ?hit (docs ix) i))"
    by (rule spec)
  have nth_old: "(docs ix @ [d]) ! i = docs ix ! i" if "i < ?n" for i
    using that by (simp add: nth_append)
  have nth_new: "(docs ix @ [d]) ! ?n = d"
    by simp
  have hit_new: "?hit (docs ix @ [d]) i \<longleftrightarrow> (if i < ?n then ?hit (docs ix) i else t \<in> set ?toks)"
    if "i < Suc ?n" for i
  proof (cases "i < ?n")
    case True
    then show ?thesis by (simp add: nth_old)
  next
    case False
    with that have "i = ?n" by simp
    then show ?thesis by (simp add: nth_new)
  qed
  show "(case doc_indices (add ix d) t of
           None \<Rightarrow> doc_frequency (add ix d) t = None
         | Some ps \<Rightarrow>
             doc_frequency (add ix d) t = Some (card (set ps)) \<and> sorted ps \<and>
             (\<forall>i. i \<in> set ps \<longleftrightarrow>
                i < length (docs (add ix d)) \<and> ?hit (docs (add ix d)) i))
        \<and> (doc_indices (add ix d) t = None \<longrightarrow>
             (\<forall>i < length (docs (add ix d)). \<not> ?hit (docs (add ix d)) i))"
  proof (cases "t \<in> set ?toks")
    case False
    then have di: "doc_indices (add ix d) t = doc_indices ix t"
      and df: "doc_frequency (add ix d) t = doc_frequency ix t"
      by (simp_all add: doc_indices_add doc_frequency_add)
    show ?thesis
    proof (cases "doc_indices ix t")
      case None
      with old have 1: "doc_frequency ix t = None" and 2: "\<forall>i < ?n. \<not> ?hit (docs ix) i"
        by simp_all
      have "\<not> ?hit (docs ix @ [d]) i" if "i < Suc ?n" for i
        using hit_new [OF that] 2 False by (simp split: if_splits)
      then show ?thesis
        by (simp add: di df None 1 docs_add)
    next
      case (Some ps)
      with old have 1: "doc_frequency ix t = Some (card (set ps))" and 2: "sorted ps"
        and 3: "\<forall>i. i \<in> set ps \<longleftrightarrow> i < ?n \<and> ?hit (docs ix) i"
        by simp_all
      have "i \<in> set ps \<longleftrightarrow> i < Suc ?n \<and> ?hit (docs ix @ [d]) i" for i
      proof (cases "i < Suc ?n")
        case True
        with hit_new [OF True] 3 False show ?thesis by (simp split: if_splits)
      next
        case False
        with 3 show ?thesis by simp
      qed
      then show ?thesis
        by (simp add: di df Some 1 2 docs_add)
    qed
  next
    case True
    then have c: "0 < count_list ?toks t"
      using count_list_0_iff [of ?toks t] by (cases "count_list ?toks t") simp_all
    then have rep: "set (replicate (count_list ?toks t) ?n) = {?n}"
      by simp
    from True have di: "doc_indices (add ix d) t =
        Some (get_or (doc_indices ix) t [] @ replicate (count_list ?toks t) ?n)"
      and df: "doc_frequency (add ix d) t = Some (get_or (doc_frequency ix) t 0 + 1)"
      by (simp_all add: doc_indices_add doc_frequency_add)
    show ?thesis
    proof (cases "doc_indices ix t")
      case None
      with old have 1: "doc_frequency ix t = None" and 2: "\<forall>i < ?n. \<not> ?hit (docs ix) i"
        by simp_all
      have "i \<in> {?n} \<longleftrightarrow> i < Suc ?n \<and> ?hit (docs ix @ [d]) i" for i
      proof (cases "i < Suc ?n")
        case True
        with hit_new [OF True] 2 \<open>t \<in> set ?toks\<close> show ?thesis
          by (auto split: if_splits)
      next
        case False
        then show ?thesis by simp
      qed
      then show ?thesis
        by (simp add: di df None 1 docs_add get_or_def rep del: set_replicate)
    next
      case (Some ps)
      with old have 1: "doc_frequency ix t = Some (card (set ps))" and 2: "sorted ps"
        and 3: "\<forall>i. i \<in> set ps \<longleftrightarrow> i < ?n \<and> ?hit (docs ix) i"
        by simp_all
      from 3 have notin: "?n \<notin> set ps" by simp
      from 3 have below: "\<forall>x \<in> set ps. x \<le> ?n" by (simp add: less_imp_le)
      have s: "set (ps @ replicate (count_list ?toks t) ?n) = insert ?n (set ps)"
        using rep by simp
      have card: "card (insert ?n (set ps)) = card (set ps) + 1"
        using notin by simp
      have sorted: "sorted (ps @ replicate (count_list ?toks t) ?n)"
        using 2 below by (simp add: sorted_append sorted_replicate)
      have mem: "i \<in> insert ?n (set ps) \<longleftrightarrow> i < Suc ?n \<and> ?hit (docs ix @ [d]) i" for i
      proof (cases "i < Suc ?n")
        case True
        with hit_new [OF True] 3 \<open>t \<in> set ?toks\<close> show ?thesis
          by (auto split: if_splits)
      next
        case False
        with 3 show ?thesis by auto
      qed
      show ?thesis
        using mem
        by (simp add: di df Some 1 docs_add get_or_def s card sorted
            del: set_append set_replicate)
    qed
  qed
qed

lemma index_inv_add_all: "index_inv ix \<Longrightarrow> index_inv (add_all ix ds)"
  unfolding add_all_def
  by (induction ds arbitrary: ix) (simp_all add: index_inv_add)

lemma index_inv_reachable: "index_inv (add_all IndexSearch_init ds)"
  by (rule index_inv_add_all) (rule index_inv_init)

text \<open>
  C10: after any sequence of \<open>add\<close> calls on a fresh index, for every token with a postings
  list, the document frequency of the token is the number of distinct ordinals in the list,
  every ordinal in the list is less than the number of stored documents, and the list is
  sorted in non-decreasing order.
\<close>

theorem add_all_invariant:
  assumes "doc_indices (add_all IndexSearch_init ds) t = Some ps"
  shows "doc_frequency (add_all IndexSearch_init ds) t = Some (card (set ps))
         \<and> (\<forall>i \<in> set ps. i < length (docs (add_all IndexSearch_init ds)))
         \<and> sorted ps"
  using index_inv_reachable [of ds] assms
  by (auto simp: index_inv_def split: option.splits)

theorem add_all_invariant_witness:
  "doc_indices
     (add_all IndexSearch_init
       [\<lparr>uri = ''u'', display_title = ''T'', content = ''x'', index_title = ''a a''\<rparr>,
        \<lparr>uri = ''v'', display_title = ''U'', content = ''a'', index_title = ''y''\<rparr>]) ''a''
     = Some [0, 0, 1]
   \<and> doc_frequency
     (add_all IndexSearch_init
       [\<lparr>uri = ''u'', display_title = ''T'', content = ''x'', index_title = ''a a''\<rparr>,
        \<lparr>uri = ''v'', display_title = ''U'', content = ''a'', index_title = ''y''\<rparr>]) ''a''
     = Some (card (set [0, 0, 1 :: nat]))
   \<and> 1 < length (docs
     (add_all IndexSearch_init
       [\<lparr>uri = ''u'', display_title = ''T'', content = ''x'', index_title = ''a a''\<rparr>,
        \<lparr>uri = ''v'', display_title = ''U'', content = ''a'', index_title = ''y''\<rparr>]))
   \<and> sorted [0, 0, 1 :: nat]"
proof -
  let ?ds = "[\<lparr>uri = ''u'', display_title = ''T'', content = ''x'', index_title = ''a a''\<rparr>,
        \<lparr>uri = ''v'', display_title = ''U'', content = ''a'', index_title = ''y''\<rparr>]"
  have h: "doc_indices (add_all IndexSearch_init ?ds) ''a'' = Some [0, 0, 1]"
    by code_simp
  from add_all_invariant [OF h] h show ?thesis
    by simp
qed

section \<open>Search\<close>

definition TITLE_BOOST_EMPTY :: nat where
  "TITLE_BOOST_EMPTY = 8"

definition TITLE_BOOST_SHORT :: nat where
  "TITLE_BOOST_SHORT = 5"

definition TITLE_BOOST_LONG :: nat where
  "TITLE_BOOST_LONG = 3"

definition SHORT_PAGE_THRESHOLD :: nat where
  "SHORT_PAGE_THRESHOLD = 800"

definition title_boost_for :: "Doc \<Rightarrow> nat" where
  "title_boost_for doc =
     (let n = length (Doc.content doc)
      in if n = 0 then TITLE_BOOST_EMPTY
         else if n < SHORT_PAGE_THRESHOLD then TITLE_BOOST_SHORT
         else TITLE_BOOST_LONG)"

text \<open>
  Scores are Python floats. They are modelled as real numbers: the claims about them are
  about their sign, their order and one exact value, not about rounding.
\<close>

definition calculate_md_score :: "Doc \<Rightarrow> string \<Rightarrow> real" where
  "calculate_md_score doc token =
     (let content_lower = lower (Doc.content doc);
          title_lower = lower (index_title doc);
          content_tf = count content_lower token;
          title_tf = count title_lower token * title_boost_for doc;
          header_tf = sum_list (map (\<lambda>h. count (lower h) token * 4)
                                    (findall_MD_HEADER (Doc.content doc)));
          code_tf = sum_list (map (\<lambda>c. count (lower c) token * 2)
                                  (findall_MD_CODE_BLOCK (Doc.content doc)));
          link_tf = sum_list (map (\<lambda>l. count (lower l) token * 2)
                                  (findall_MD_LINK_TEXT (Doc.content doc)))
      in real (content_tf + title_tf + header_tf + code_tf + link_tf))"

datatype error = IndexError

type_synonym scores = "(nat \<times> real) list"

text \<open>
  The dictionary \<open>scores\<close> is an association list in insertion order, the order in which
  Python iterates over it: \<open>AList.update\<close> replaces the value of a key in place and puts a
  new key at the end.
\<close>

fun score_postings :: "IndexSearch \<Rightarrow> nat \<Rightarrow> string \<Rightarrow> nat list \<Rightarrow> scores \<Rightarrow> error + scores" where
  \<comment> \<open>the inner loop of \<open>search\<close> over the postings of the query token \<open>qt\<close>;
      \<open>self.docs[idx]\<close> raises IndexError out of range\<close>
  "score_postings ix N qt [] scores = Inr scores"
| "score_postings ix N qt (idx # idxs) scores =
     (if idx < length (docs ix)
      then (let d = docs ix ! idx;
                tf = calculate_md_score d qt;
                idf = ln (real (N + 1) / real (1 + get_or (doc_frequency ix) qt 0)) + 1
            in score_postings ix N qt idxs
                 (AList.update idx (get_or (map_of scores) idx 0 + tf * idf) scores))
      else Inl IndexError)"

fun score_tokens :: "IndexSearch \<Rightarrow> nat \<Rightarrow> string list \<Rightarrow> scores \<Rightarrow> error + scores" where
  \<comment> \<open>the outer loop of \<open>search\<close> over the query tokens\<close>
  "score_tokens ix N [] scores = Inr scores"
| "score_tokens ix N (qt # qts) scores =
     (case score_postings ix N qt (get_or (doc_indices ix) qt []) scores of
        Inl e \<Rightarrow> Inl e
      | Inr scores' \<Rightarrow> score_tokens ix N qts scores')"

definition q_tokens :: "string \<Rightarrow> string list" where
  "q_tokens query = map lower (findall_TOKEN query)"

definition ranked :: "IndexSearch \<Rightarrow> string \<Rightarrow> error + (real \<times> Doc) list" where
  \<comment> \<open>the list \<open>ranked\<close> of \<open>search\<close>: a stable sort by descending score. Every key of
      \<open>scores\<close> has passed the range check of the loop, so \<open>self.docs[i]\<close> is in range\<close>
  "ranked ix query =
     (let N = max (length (docs ix)) 1
      in case score_tokens ix N (q_tokens query) [] of
           Inl e \<Rightarrow> Inl e
         | Inr scores \<Rightarrow>
             Inr (sort_key (\<lambda>x. - fst x) (map (\<lambda>(i, score). (score, docs ix ! i)) scores)))"

definition search :: "IndexSearch \<Rightarrow> string \<Rightarrow> int \<Rightarrow> error + (real \<times> Doc) list" where
  \<comment> \<open>\<open>IndexSearch.search\<close>: the result is \<open>ranked[:k]\<close>\<close>
  "search ix query k =
     (case ranked ix query of Inl e \<Rightarrow> Inl e | Inr r \<Rightarrow> Inr (slice_to k r))"

section \<open>The title boost\<close>

text \<open>
  C8: the title boost depends only on the length of the document's body, and its three tiers
  are strictly decreasing: an empty body has a higher boost than a body shorter than the
  short-page threshold, which has a higher boost than a longer body; so the boost is
  monotonically non-increasing in the body length.
\<close>

theorem title_boost_for_tiers:
  "(length (Doc.content d1) = length (Doc.content d2) \<longrightarrow> title_boost_for d1 = title_boost_for d2)
   \<and> (length (Doc.content d1) = 0 \<and> 0 < length (Doc.content d2)
        \<and> length (Doc.content d2) < SHORT_PAGE_THRESHOLD
        \<and> SHORT_PAGE_THRESHOLD \<le> length (Doc.content d3)
      \<longrightarrow> title_boost_for d3 < title_boost_for d2 \<and> title_boost_for d2 < title_boost_for d1)
   \<and> (length (Doc.content d1) \<le> length (Doc.content d2)
      \<longrightarrow> title_boost_for d2 \<le> title_boost_for d1)"
  by (simp add: title_boost_for_def Let_def TITLE_BOOST_EMPTY_def TITLE_BOOST_SHORT_def
      TITLE_BOOST_LONG_def SHORT_PAGE_THRESHOLD_def)

theorem title_boost_for_tiers_witness:
  "title_boost_for \<lparr>uri = ''u'', display_title = ''T'', content = replicate 800 CHR ''x'', index_title = ''t''\<rparr>
     < title_boost_for \<lparr>uri = ''u'', display_title = ''T'', content = ''xy'', index_title = ''t''\<rparr>
   \<and> title_boost_for \<lparr>uri = ''u'', display_title = ''T'', content = ''xy'', index_title = ''t''\<rparr>
     < title_boost_for \<lparr>uri = ''u'', display_title = ''T'', content = '''', index_title = ''t''\<rparr>
   \<and> title_boost_for \<lparr>uri = ''u'', display_title = ''T'', content = ''xy'', index_title = ''t''\<rparr>
     = title_boost_for \<lparr>uri = ''v'', display_title = ''U'', content = ''zz'', index_title = ''s''\<rparr>"
  using title_boost_for_tiers
    [of "\<lparr>uri = ''u'', display_title = ''T'', content = '''', index_title = ''t''\<rparr>"
        "\<lparr>uri = ''u'', display_title = ''T'', content = ''xy'', index_title = ''t''\<rparr>"
        "\<lparr>uri = ''u'', display_title = ''T'', content = replicate 800 CHR ''x'', index_title = ''t''\<rparr>"]
    title_boost_for_tiers
    [of "\<lparr>uri = ''u'', display_title = ''T'', content = ''xy'', index_title = ''t''\<rparr>"
        "\<lparr>uri = ''v'', display_title = ''U'', content = ''zz'', index_title = ''s''\<rparr>"]
  by (simp add: SHORT_PAGE_THRESHOLD_def)

section \<open>Tokens and occurrences\<close>

lemma findall_TOKEN_append_sep:
  "\<not> is_token_char sp \<Longrightarrow> findall_TOKEN (a @ sp # b) = findall_TOKEN a @ findall_TOKEN b"
proof (induction a rule: findall_TOKEN.induct)
  case 1
  then show ?case by simp
next
  case (2 c cs)
  then show ?case
    by (simp add: takeWhile_tail dropWhile_append3)
qed

lemma findall_TOKEN_mem:
  "tok \<in> set (findall_TOKEN s) \<Longrightarrow> tok \<noteq> [] \<and> (\<exists>u v. s = u @ tok @ v)"
proof (induction s rule: findall_TOKEN.induct)
  case 1
  then show ?case by simp
next
  case (2 c cs)
  show ?case
  proof (cases "is_token_char c")
    case False
    with 2 obtain u v where "tok \<noteq> []" "cs = u @ tok @ v" by auto
    then have "c # cs = (c # u) @ tok @ v" by simp
    with \<open>tok \<noteq> []\<close> show ?thesis by blast
  next
    case True
    with 2(3) consider "tok = c # takeWhile is_token_char cs"
      | "tok \<in> set (findall_TOKEN (dropWhile is_token_char cs))" by auto
    then show ?thesis
    proof cases
      case 1
      then have "c # cs = [] @ tok @ dropWhile is_token_char cs" by simp
      with 1 show ?thesis by blast
    next
      case 2
      with "2.IH"(1) True obtain u v where ne: "tok \<noteq> []"
        and "dropWhile is_token_char cs = u @ tok @ v" by auto
      then have "c # cs = (c # takeWhile is_token_char cs @ u) @ tok @ v"
        by (metis append_Cons append_assoc takeWhile_dropWhile_id)
      with ne show ?thesis by blast
    qed
  qed
qed

lemma count_ge_1: "sub \<noteq> [] \<Longrightarrow> 1 \<le> count (u @ sub @ v) sub"
proof (induction u)
  case Nil
  then show ?case by (subst count.simps) simp
next
  case (Cons a u)
  then show ?case by (subst count.simps) auto
qed

lemma count_token_ge_1:
  "tok \<in> set (findall_TOKEN s) \<Longrightarrow> 1 \<le> count s tok"
  using findall_TOKEN_mem count_ge_1 by blast

lemma not_token_space: "\<not> is_token_char CHR '' ''"
  by (simp add: is_token_char_def code_def)

lemma findall_TOKEN_join:
  "findall_TOKEN (join '' '' xs) = concat (map findall_TOKEN xs)"
proof (induction "'' ''" xs rule: join.induct)
  case 1
  show ?case by simp
next
  case (2 x)
  show ?case by simp
next
  case (3 x y ys)
  then show ?case
    using findall_TOKEN_append_sep [OF not_token_space] by simp
qed

lemma lower_join: "lower (join '' '' xs) = join '' '' (map lower xs)"
proof (induction "'' ''" xs rule: join.induct)
  case (3 x y ys)
  then show ?case by (simp add: lower_def lower_char_def code_def)
qed (simp_all add: lower_def)

lemma count_list_tokens_split:
  "q \<noteq> [] \<Longrightarrow>
   count_list (findall_TOKEN s) q =
     (if takeWhile is_token_char s = q then 1 else 0)
     + count_list (findall_TOKEN (dropWhile is_token_char s)) q"
  by (cases s) auto

lemma count_list_tokens_dropWhile:
  "q \<noteq> [] \<Longrightarrow>
   count_list (findall_TOKEN (dropWhile is_token_char s)) q \<le> count_list (findall_TOKEN s) q"
  using count_list_tokens_split [of q s] by simp

lemma count_list_tokens_le_count:
  assumes "q \<noteq> []" and "\<forall>c \<in> set q. is_token_char c"
  shows "count_list (findall_TOKEN s) q \<le> count s q"
  using assms
proof (induction s q rule: count.induct)
  case (1 s q)
  note ne = \<open>q \<noteq> []\<close>
  show ?case
  proof (cases "length s < length q")
    case True
    have "q \<notin> set (findall_TOKEN s)"
    proof
      assume "q \<in> set (findall_TOKEN s)"
      then obtain u v where "s = u @ q @ v" using findall_TOKEN_mem by blast
      with True show False by simp
    qed
    then show ?thesis by simp
  next
    case False
    show ?thesis
    proof (cases "take (length q) s = q")
      case True
      have c: "count s q = 1 + count (drop (length q) s) q"
        using ne False True by (subst count.simps) simp
      have s: "s = q @ drop (length q) s"
        using True by (metis append_take_drop_id)
      have "dropWhile is_token_char s = dropWhile is_token_char (drop (length q) s)"
        using 1(4) by (subst s) (simp add: dropWhile_append2)
      then have "count_list (findall_TOKEN (dropWhile is_token_char s)) q
          \<le> count_list (findall_TOKEN (drop (length q) s)) q"
        using count_list_tokens_dropWhile [OF ne, of "drop (length q) s"] by simp
      moreover have "count_list (findall_TOKEN (drop (length q) s)) q \<le> count (drop (length q) s) q"
        using "1.IH"(1) ne False True 1(4) by simp
      moreover have "count_list (findall_TOKEN s) q
          \<le> 1 + count_list (findall_TOKEN (dropWhile is_token_char s)) q"
        using count_list_tokens_split [OF ne, of s] by simp
      ultimately show ?thesis using c by linarith
    next
      case nopre: False
      have c: "count s q = count (tl s) q"
        using ne False nopre by (subst count.simps) simp
      from ne False obtain a cs where s: "s = a # cs" by (cases s) auto
      have ih: "count_list (findall_TOKEN cs) q \<le> count cs q"
        using "1.IH"(2) ne False nopre 1(4) s by simp
      have "count_list (findall_TOKEN (a # cs)) q \<le> count_list (findall_TOKEN cs) q"
      proof (cases "is_token_char a")
        case False
        then show ?thesis by simp
      next
        case True
        have "a # takeWhile is_token_char cs \<noteq> q"
        proof
          assume eq: "a # takeWhile is_token_char cs = q"
          have "s = q @ dropWhile is_token_char cs"
            unfolding s eq [symmetric] by simp
          then have "take (length q) s = q" by simp
          with nopre show False by simp
        qed
        with True have "count_list (findall_TOKEN (a # cs)) q
            = count_list (findall_TOKEN (dropWhile is_token_char cs)) q"
          by simp
        with count_list_tokens_dropWhile [OF ne, of cs] show ?thesis by simp
      qed
      with ih c s show ?thesis by simp
    qed
  qed
qed

lemma findall_TOKEN_haystack:
  "findall_TOKEN (haystack d) =
     findall_TOKEN (lower (index_title d))
     @ concat (map (\<lambda>h. findall_TOKEN (lower h)) (findall_MD_HEADER (Doc.content d)))
     @ concat (map (\<lambda>l. findall_TOKEN (lower l)) (findall_MD_LINK_TEXT (Doc.content d)))
     @ concat (map (\<lambda>c. findall_TOKEN (lower c)) (findall_MD_CODE_BLOCK (Doc.content d)))
     @ findall_TOKEN (lower (Doc.content d))"
  unfolding haystack_def Let_def lower_join findall_TOKEN_join
  by (simp add: findall_TOKEN_join comp_def)

lemma sum_list_count_ge:
  assumes "x \<in> set xs" and "tok \<in> set (findall_TOKEN (lower x))" and "0 < w"
  shows "1 \<le> sum_list (map (\<lambda>h. count (lower h) tok * w) xs)"
proof -
  have "1 \<le> count (lower x) tok" using assms(2) by (rule count_token_ge_1)
  with assms(3) have "1 * 1 \<le> count (lower x) tok * w"
    by (intro mult_le_mono) simp_all
  also have "\<dots> \<le> sum_list (map (\<lambda>h. count (lower h) tok * w) xs)"
    using assms(1) by (intro member_le_sum_list) auto
  finally show ?thesis by simp
qed

lemma calculate_md_score_ge_1:
  assumes "tok \<in> set (findall_TOKEN (haystack d))"
  shows "1 \<le> calculate_md_score d tok"
proof -
  let ?c = "count (lower (Doc.content d)) tok"
  let ?t = "count (lower (index_title d)) tok * title_boost_for d"
  let ?h = "sum_list (map (\<lambda>h. count (lower h) tok * 4) (findall_MD_HEADER (Doc.content d)))"
  let ?k = "sum_list (map (\<lambda>c. count (lower c) tok * 2) (findall_MD_CODE_BLOCK (Doc.content d)))"
  let ?l = "sum_list (map (\<lambda>l. count (lower l) tok * 2) (findall_MD_LINK_TEXT (Doc.content d)))"
  have boost: "1 \<le> title_boost_for d"
    by (simp add: title_boost_for_def Let_def TITLE_BOOST_EMPTY_def TITLE_BOOST_SHORT_def
        TITLE_BOOST_LONG_def)
  from assms consider "tok \<in> set (findall_TOKEN (lower (index_title d)))"
    | h where "h \<in> set (findall_MD_HEADER (Doc.content d))" "tok \<in> set (findall_TOKEN (lower h))"
    | l where "l \<in> set (findall_MD_LINK_TEXT (Doc.content d))" "tok \<in> set (findall_TOKEN (lower l))"
    | c where "c \<in> set (findall_MD_CODE_BLOCK (Doc.content d))" "tok \<in> set (findall_TOKEN (lower c))"
    | "tok \<in> set (findall_TOKEN (lower (Doc.content d)))"
    unfolding findall_TOKEN_haystack by auto
  then have "1 \<le> ?c + ?t + ?h + ?k + ?l"
  proof cases
    case 1
    then have "1 \<le> count (lower (index_title d)) tok" by (rule count_token_ge_1)
    with boost have "1 * 1 \<le> ?t"
      by (intro mult_le_mono) simp_all
    then show ?thesis by linarith
  next
    case 2
    then have "1 \<le> ?h" by (intro sum_list_count_ge) auto
    then show ?thesis by linarith
  next
    case 3
    then have "1 \<le> ?l" by (intro sum_list_count_ge) auto
    then show ?thesis by linarith
  next
    case 4
    then have "1 \<le> ?k" by (intro sum_list_count_ge) auto
    then show ?thesis by linarith
  next
    case 5
    then have "1 \<le> ?c" by (rule count_token_ge_1)
    then show ?thesis by linarith
  qed
  then have "real 1 \<le> real (?c + ?t + ?h + ?k + ?l)"
    by (rule of_nat_mono)
  then show ?thesis
    unfolding calculate_md_score_def Let_def by simp
qed

section \<open>Properties of search\<close>

lemma docs_add_all: "docs (add_all ix ds) = docs ix @ ds"
  unfolding add_all_def
  by (induction ds arbitrary: ix) (simp_all add: docs_add)

lemma docs_reachable: "docs (add_all IndexSearch_init ds) = ds"
  by (simp add: docs_add_all IndexSearch_init_def)

lemma slice_to_length: "0 \<le> k \<Longrightarrow> length (slice_to k xs) \<le> nat k"
  by (simp add: slice_to_def)

lemma slice_to_zero: "slice_to 0 xs = []"
  by (simp add: slice_to_def)

lemma slice_to_negative:
  "k < 0 \<Longrightarrow> slice_to k xs = take (length xs - nat (- k)) xs"
proof -
  assume "k < 0"
  then have "nat (int (length xs) + k) = length xs - nat (- k)" by linarith
  with \<open>k < 0\<close> show ?thesis by (simp add: slice_to_def)
qed

lemma slice_to_subset: "set (slice_to k xs) \<subseteq> set xs"
  by (simp add: slice_to_def set_take_subset)

lemma sorted_desc_sort_key:
  "sorted_wrt (\<lambda>a b. fst b \<le> fst a) (sort_key (\<lambda>x. - fst x) (xs :: (real \<times> 'a) list))"
proof -
  have "sorted (map (\<lambda>x. - fst x) (sort_key (\<lambda>x. - fst x) xs))"
    by (rule sorted_sort_key)
  then show ?thesis by (simp add: sorted_map)
qed

lemma sorted_desc_slice_to:
  "sorted_wrt (\<lambda>a b. fst b \<le> fst a) (slice_to k (sort_key (\<lambda>x. - fst x) (xs :: (real \<times> 'a) list)))"
  unfolding slice_to_def using sorted_desc_sort_key [of xs] by (simp add: sorted_wrt_take)

lemma search_Inr_iff:
  "search ix query k = Inr res \<longleftrightarrow> (\<exists>r. ranked ix query = Inr r \<and> res = slice_to k r)"
  by (auto simp: search_def split: sum.splits)

lemma ranked_Inr_iff:
  "ranked ix query = Inr r \<longleftrightarrow>
     (\<exists>scores. score_tokens ix (max (length (docs ix)) 1) (q_tokens query) [] = Inr scores
        \<and> r = sort_key (\<lambda>x. - fst x) (map (\<lambda>(i, score). (score, docs ix ! i)) scores))"
  by (auto simp: ranked_def Let_def split: sum.splits)

text \<open>The postings of a reachable index.\<close>

lemma postings_inv:
  assumes "index_inv ix"
  shows "i \<in> set (get_or (doc_indices ix) t []) \<longleftrightarrow>
           i < length (docs ix) \<and> t \<in> set (findall_TOKEN (haystack (docs ix ! i)))"
proof (cases "doc_indices ix t")
  case None
  with assms have "\<forall>i < length (docs ix). t \<notin> set (findall_TOKEN (haystack (docs ix ! i)))"
    unfolding index_inv_def by (metis (no_types, lifting))
  with None show ?thesis by (auto simp: get_or_def)
next
  case (Some ps)
  from assms [unfolded index_inv_def, THEN spec, of t] Some
  have "\<forall>i. i \<in> set ps \<longleftrightarrow>
           i < length (docs ix) \<and> t \<in> set (findall_TOKEN (haystack (docs ix ! i)))"
    by simp
  with Some show ?thesis by (simp add: get_or_def)
qed

lemma doc_frequency_le:
  assumes "index_inv ix"
  shows "get_or (doc_frequency ix) t 0 \<le> length (docs ix)"
proof (cases "doc_indices ix t")
  case None
  from assms [unfolded index_inv_def, THEN spec, of t] None
  have "doc_frequency ix t = None" by simp
  then show ?thesis by (simp add: get_or_def)
next
  case (Some ps)
  from assms [unfolded index_inv_def, THEN spec, of t] Some
  have df: "doc_frequency ix t = Some (card (set ps))"
    and "\<forall>i. i \<in> set ps \<longleftrightarrow>
           i < length (docs ix) \<and> t \<in> set (findall_TOKEN (haystack (docs ix ! i)))"
    by simp_all
  then have "set ps \<subseteq> {..<length (docs ix)}" by auto
  then have "card (set ps) \<le> card {..<length (docs ix)}"
    by (intro card_mono) simp_all
  with df show ?thesis by (simp add: get_or_def)
qed

lemma idf_ge_1:
  assumes "index_inv ix" and "length (docs ix) \<le> N"
  shows "1 \<le> ln (real (N + 1) / real (1 + get_or (doc_frequency ix) t 0)) + 1"
proof -
  have "get_or (doc_frequency ix) t 0 \<le> N"
    using doc_frequency_le [OF assms(1), of t] assms(2) by simp
  then have "real (1 + get_or (doc_frequency ix) t 0) \<le> real (N + 1)"
    by simp
  then have "1 \<le> real (N + 1) / real (1 + get_or (doc_frequency ix) t 0)"
    by (simp add: le_divide_eq)
  then have "0 \<le> ln (real (N + 1) / real (1 + get_or (doc_frequency ix) t 0))"
    by (rule ln_ge_zero)
  then show ?thesis by simp
qed

text \<open>
  What the loops keep: every score is positive, and every key is the ordinal of a stored
  document with a haystack token among the tokens \<open>Q\<close>.
\<close>

definition scores_ok :: "IndexSearch \<Rightarrow> string set \<Rightarrow> scores \<Rightarrow> bool" where
  "scores_ok ix Q scores =
     (\<forall>(i, v) \<in> set scores. 0 < v \<and> i < length (docs ix)
        \<and> (\<exists>qt \<in> Q. qt \<in> set (findall_TOKEN (haystack (docs ix ! i)))))"

lemma in_set_update:
  "(i, v) \<in> set (AList.update k w al) \<Longrightarrow> (i, v) = (k, w) \<or> (i, v) \<in> set al"
  by (induction al) (auto split: if_splits)

lemma score_postings_ok:
  assumes inv: "index_inv ix" and N: "length (docs ix) \<le> N" and qt: "qt \<in> Q"
    and idxs: "set idxs \<subseteq> set (get_or (doc_indices ix) qt [])"
    and ok: "scores_ok ix Q scores"
  shows "\<exists>scores'. score_postings ix N qt idxs scores = Inr scores' \<and> scores_ok ix Q scores'"
  using idxs ok
proof (induction idxs arbitrary: scores)
  case Nil
  then show ?case by simp
next
  case (Cons idx idxs)
  let ?tf = "calculate_md_score (docs ix ! idx) qt"
  let ?idf = "ln (real (N + 1) / real (1 + get_or (doc_frequency ix) qt 0)) + 1"
  let ?new = "get_or (map_of scores) idx 0 + ?tf * ?idf"
  from Cons.prems(1) have mem: "idx \<in> set (get_or (doc_indices ix) qt [])" by simp
  with postings_inv [OF inv] have lt: "idx < length (docs ix)"
    and tok: "qt \<in> set (findall_TOKEN (haystack (docs ix ! idx)))" by simp_all
  have tf: "1 \<le> ?tf" using tok by (rule calculate_md_score_ge_1)
  have idf: "1 \<le> ?idf" using inv N by (rule idf_ge_1)
  from tf idf have prod: "0 < ?tf * ?idf" by (intro mult_pos_pos) linarith+
  have old: "0 \<le> get_or (map_of scores) idx 0"
  proof (cases "map_of scores idx")
    case None
    then show ?thesis by (simp add: get_or_def)
  next
    case (Some v)
    then have "(idx, v) \<in> set scores" by (rule map_of_SomeD)
    with Cons.prems(2) have "0 < v" by (auto simp: scores_ok_def)
    with Some show ?thesis by (simp add: get_or_def)
  qed
  from old prod have new: "0 < ?new" by linarith
  have "scores_ok ix Q (AList.update idx ?new scores)"
    unfolding scores_ok_def
  proof (intro ballI, clarify)
    fix i v
    assume "(i, v) \<in> set (AList.update idx ?new scores)"
    then consider "(i, v) = (idx, ?new)" | "(i, v) \<in> set scores"
      using in_set_update by fast
    then show "0 < v \<and> i < length (docs ix)
        \<and> (\<exists>qt \<in> Q. qt \<in> set (findall_TOKEN (haystack (docs ix ! i))))"
    proof cases
      case 1
      with new lt tok qt show ?thesis by auto
    next
      case 2
      with Cons.prems(2) show ?thesis by (auto simp: scores_ok_def)
    qed
  qed
  moreover from Cons.prems(1) have "set idxs \<subseteq> set (get_or (doc_indices ix) qt [])" by simp
  ultimately have "\<exists>scores'. score_postings ix N qt idxs (AList.update idx ?new scores) = Inr scores'
      \<and> scores_ok ix Q scores'"
    by (rule Cons.IH[rotated])
  with lt show ?case by (simp add: Let_def)
qed

lemma score_tokens_ok:
  assumes inv: "index_inv ix" and N: "length (docs ix) \<le> N"
    and qts: "set qts \<subseteq> Q" and ok: "scores_ok ix Q scores"
  shows "\<exists>scores'. score_tokens ix N qts scores = Inr scores' \<and> scores_ok ix Q scores'"
  using qts ok
proof (induction qts arbitrary: scores)
  case Nil
  then show ?case by simp
next
  case (Cons qt qts)
  from Cons.prems(1) have "qt \<in> Q" by simp
  from score_postings_ok [OF inv N this subset_refl Cons.prems(2)]
  obtain s1 where s1: "score_postings ix N qt (get_or (doc_indices ix) qt []) scores = Inr s1"
    and ok1: "scores_ok ix Q s1" by blast
  from Cons.prems(1) have "set qts \<subseteq> Q" by simp
  from Cons.IH [OF this ok1] s1 show ?case by simp
qed

lemma ranked_reachable:
  assumes inv: "index_inv ix"
  shows "\<exists>scores. score_tokens ix (max (length (docs ix)) 1) (q_tokens query) [] = Inr scores
      \<and> scores_ok ix (set (q_tokens query)) scores
      \<and> ranked ix query =
          Inr (sort_key (\<lambda>x. - fst x) (map (\<lambda>(i, score). (score, docs ix ! i)) scores))"
proof -
  have "scores_ok ix (set (q_tokens query)) []" by (simp add: scores_ok_def)
  from score_tokens_ok [OF inv _ subset_refl this, of "max (length (docs ix)) 1"]
  obtain scores where "score_tokens ix (max (length (docs ix)) 1) (q_tokens query) [] = Inr scores"
    and "scores_ok ix (set (q_tokens query)) scores" by auto
  then show ?thesis by (auto simp: ranked_def Let_def)
qed

end
